theory Spec2Isabelle
  imports Complex_Main "HOL-Library.Multiset"
begin

section \<open>Numbers and errors\<close>

text \<open>
  A TypeScript \<open>number\<close> is an IEEE 754 binary64 value. A finite one is modelled by the
  real it denotes (the two zeros are one value), so the fields of the records, which the
  services exchange as JSON, are reals; comparisons of finite numbers are exact. The
  arithmetic of the code is not: a sum, difference, product or quotient is the exact result
  rounded to the nearest binary64 value, ties to the even significand, and a result beyond
  the largest finite value is an infinity.
\<close>

type_synonym number = real

text \<open>The number of binary digits of a natural number.\<close>

fun bit_length :: "nat \<Rightarrow> nat" where
  "bit_length n = (if n = 0 then 0 else Suc (bit_length (n div 2)))"

text \<open>Rounding to the nearest integer, a tie going to the even one.\<close>

definition round_half_even :: "real \<Rightarrow> int" where
  "round_half_even q =
     (let f = \<lfloor>q\<rfloor>; d = q - of_int f
      in if d < 1 / 2 then f
         else if 1 / 2 < d then f + 1
         else if even f then f else f + 1)"

text \<open>The binary64 values near \<open>x\<close> are the multiples of \<open>2 ^ ulp_shift x / 2 ^ 1074\<close>:
  a significand of 53 binary digits, and never finer than the least subnormal
  \<open>1 / 2 ^ 1074\<close>. \<open>round64\<close> rounds to the nearest of them; it leaves the exponent
  unbounded above, and \<open>result64\<close> below reports the overflow.\<close>

definition ulp_shift :: "real \<Rightarrow> nat" where
  "ulp_shift x = bit_length (nat \<lfloor>\<bar>x\<bar> * 2 ^ 1074\<rfloor>) - 53"

definition round64 :: "real \<Rightarrow> real" where
  "round64 x =
     of_int (round_half_even (x * 2 ^ 1074 / 2 ^ ulp_shift x)) * 2 ^ ulp_shift x / 2 ^ 1074"

text \<open>The largest finite binary64 value, and the reals that are finite binary64 values:
  those that rounding leaves as they are.\<close>

definition max64 :: real where
  "max64 = (2 ^ 53 - 1) * 2 ^ 971"

definition exact64 :: "real \<Rightarrow> bool" where
  "exact64 x \<longleftrightarrow> round64 x = x \<and> \<bar>x\<bar> \<le> max64"

text \<open>A value of a computation that can leave the finite numbers. \<open>NonFinite\<close> is
  \<open>Infinity\<close>, \<open>-Infinity\<close> or \<open>NaN\<close>, which the model does not tell apart. \<open>result64\<close>
  is the binary64 result of an operation whose exact result is \<open>x\<close>.\<close>

datatype float64 = Finite number | NonFinite

definition result64 :: "real \<Rightarrow> float64" where
  "result64 x = (if \<bar>round64 x\<bar> \<le> max64 then Finite (round64 x) else NonFinite)"


fun sub64 :: "float64 \<Rightarrow> float64 \<Rightarrow> float64" where
  "sub64 (Finite a) (Finite b) = result64 (a - b)"
| "sub64 a b = NonFinite"

fun mul64 :: "float64 \<Rightarrow> float64 \<Rightarrow> float64" where
  "mul64 (Finite a) (Finite b) = result64 (a * b)"
| "mul64 a b = NonFinite"

fun div64 :: "float64 \<Rightarrow> float64 \<Rightarrow> float64" where
  "div64 (Finite a) (Finite b) = (if b = 0 then NonFinite else result64 (a / b))"
| "div64 (Finite a) NonFinite = Finite 0"
| "div64 NonFinite b = NonFinite"

text \<open>What a JavaScript function can throw: the runtime's \<open>TypeError\<close> and
  \<open>SyntaxError\<close>, an \<open>Error\<close> made by \<open>new Error(msg)\<close>, and any other thrown value
  that is not an instance of \<open>Error\<close>.\<close>

datatype error = TypeError string | SyntaxError string | Error string | NonError string

fun instanceof_Error :: "error \<Rightarrow> bool" where
  "instanceof_Error (NonError v) = False"
| "instanceof_Error e = True"

text \<open>\<open>Array.prototype.reduce\<close> without an initial value: the first element seeds the
  accumulator, and an empty array throws a \<open>TypeError\<close>. With an initial value it is a
  left fold.\<close>

fun reduce1 :: "('a \<Rightarrow> 'a \<Rightarrow> 'a) \<Rightarrow> 'a list \<Rightarrow> error + 'a" where
  "reduce1 f [] = Inl (TypeError ''Reduce of empty array with no initial value'')"
| "reduce1 f (x # xs) = Inr (foldl f x xs)"


section \<open>The ledger and the session clusterer\<close>

text \<open>
  Modelled from the spec: the logbook service (its store, \<open>session_clustering.py\<close> and
  the route that answers \<open>latest-session\<close>) is not among the sources; only its README
  describes the algorithm. The definitions of this section follow sections 3, 4.1, 4.2 and
  4.4 of the specification. Instants and durations are integers, in microseconds.
\<close>

record LogEntry =
  id :: nat
  user_id :: string
  exercise_name :: string
  timestamp :: int
  set_number :: nat
  weight_used :: real
  reps_completed :: nat
  duration :: "real option"
  distance :: "real option"
  rpe :: "real option"

text \<open>Modelled from the spec: \<open>LedgerStore.query\<close>, all entries of the pair, most recent
  first. The ledger is the list of stored entries in insertion order.\<close>

definition query :: "LogEntry list \<Rightarrow> string \<Rightarrow> string \<Rightarrow> LogEntry list" where
  "query ledger uid ex =
     sort_key (\<lambda>e. - timestamp e)
       (filter (\<lambda>e. user_id e = uid \<and> exercise_name e = ex) ledger)"

text \<open>Modelled from the spec: steps 2 to 4 of the clusterer. \<open>accumulate\<close> walks from the
  entry \<open>prev\<close> to the next-older ones and keeps them while the gap is at most the
  threshold; it stops at the first larger gap or at the end of the list.\<close>

fun accumulate :: "int \<Rightarrow> LogEntry \<Rightarrow> LogEntry list \<Rightarrow> LogEntry list" where
  "accumulate threshold prev [] = []"
| "accumulate threshold prev (e # es) =
     (if timestamp prev - timestamp e \<le> threshold
      then e # accumulate threshold e es
      else [])"

text \<open>Modelled from the spec: step 1 (an empty input is \<open>NotFound\<close>, here \<open>None\<close>) and
  the most recent cluster otherwise.\<close>

fun latest_cluster :: "int \<Rightarrow> LogEntry list \<Rightarrow> LogEntry list option" where
  "latest_cluster threshold [] = None"
| "latest_cluster threshold (e # es) = Some (e # accumulate threshold e es)"

text \<open>Modelled from the spec: the reference that section 4.4 packages,
  \<open>{session_timestamp, sets (ascending), total_sets}\<close>; the service that builds it is not
  among the sources.\<close>

record Session =
  session_timestamp :: int
  sets :: "LogEntry list"
  total_sets :: nat

text \<open>Modelled from the spec: steps 5 and 6 (sets ascending by set number, the earliest
  timestamp as the session's) and \<open>ReferenceService.getLatestSessionReference\<close>, whose
  threshold is optional and two hours when absent.\<close>

fun package :: "LogEntry list \<Rightarrow> Session option" where
  "package [] = None"
| "package (e # es) =
     Some \<lparr> session_timestamp = fold min (map timestamp es) (timestamp e),
            sets = sort_key set_number (e # es),
            total_sets = length (e # es) \<rparr>"

text \<open>Modelled from the spec: the threshold of a query is optional (section 6,
  \<open>session_threshold_hours\<close>) and two hours when the caller gives none; the route that
  reads it is not among the sources.\<close>

definition two_hours :: int where
  "two_hours = 2 * 3600 * 1000000"

definition threshold_or_default :: "int option \<Rightarrow> int" where
  "threshold_or_default threshold = (case threshold of None \<Rightarrow> two_hours | Some d \<Rightarrow> d)"

definition getLatestSessionReference ::
    "LogEntry list \<Rightarrow> string \<Rightarrow> string \<Rightarrow> int option \<Rightarrow> Session option" where
  "getLatestSessionReference ledger uid ex threshold =
     (case latest_cluster (threshold_or_default threshold) (query ledger uid ex) of
        None \<Rightarrow> None
      | Some es \<Rightarrow> package es)"

text \<open>The claim's own words: every consecutive gap of a newest-first list is at most the
  threshold.\<close>

fun gaps_within :: "int \<Rightarrow> LogEntry list \<Rightarrow> bool" where
  "gaps_within threshold (a # b # es) =
     (timestamp a - timestamp b \<le> threshold \<and> gaps_within threshold (b # es))"
| "gaps_within threshold es = True"

text \<open>The entries of the specification's example, stored oldest first; \<open>clock h m\<close> is
  the time \<open>h:m\<close> of one day.\<close>

definition clock :: "int \<Rightarrow> int \<Rightarrow> int" where
  "clock h m = (h * 3600 + m * 60) * 1000000"

definition entry_at :: "nat \<Rightarrow> int \<Rightarrow> nat \<Rightarrow> LogEntry" where
  "entry_at i t n =
     \<lparr> id = i, user_id = ''user_123'', exercise_name = ''Leg Press'', timestamp = t,
       set_number = n, weight_used = 100, reps_completed = 10,
       duration = None, distance = None, rpe = None \<rparr>"

definition example_ledger :: "LogEntry list" where
  "example_ledger =
     [entry_at 1 (clock 7 0) 1, entry_at 2 (clock 7 5) 2,
      entry_at 3 (clock 10 0) 1, entry_at 4 (clock 10 5) 2]"

section \<open>api/types.ts\<close>

record Exercise =
  name :: string
  sets :: "number option"
  reps :: "number option"

record DailyWorkout =
  workout_id :: number
  plan_id :: string
  day :: string
  target_body_parts :: "string list"
  exercises :: "Exercise list"

record LogEntryCreate =
  user_id :: string
  exercise_name :: string
  set_number :: number
  weight_used :: number
  reps_completed :: number
  duration :: "number option"
  distance :: "number option"
  rpe :: "number option"

record LogEntryResponse = LogEntryCreate +
  log_entry_id :: string
  timestamp :: string
  created_at :: string

record APIError =
  detail :: string
  status :: "number option"

record SetData =
  set_number :: number
  weight_used :: number
  reps_completed :: number
  duration :: "number option"
  distance :: "number option"
  rpe :: "number option"
  timestamp :: string

record SessionReference =
  user_id :: string
  exercise_name :: string
  session_timestamp :: string
  sets :: "SetData list"
  total_sets :: number

section \<open>The logbook client: \<open>LDPSClient.getLatestSession\<close>\<close>

text \<open>The values a response body can parse to, as far as the client's types name them.\<close>

datatype json = JSON_null | JSON_APIError APIError | JSON_SessionReference SessionReference

text \<open>A \<open>Response\<close> of \<open>fetch\<close>. The field \<open>json\<close> is the outcome of \<open>response.json()\<close>:
  the parsed body, or the error the promise rejects with.\<close>

record Response =
  status :: number
  ok :: bool
  statusText :: string
  json :: "error + json"

text \<open>Reading \<open>error.detail\<close>: a property access on \<open>null\<close> throws, a missing property is
  \<open>undefined\<close>, and \<open>new Error(undefined)\<close> has the empty message.\<close>

fun detail_of :: "json \<Rightarrow> error + string" where
  "detail_of JSON_null = Inl (TypeError ''Cannot read properties of null'')"
| "detail_of (JSON_APIError e) = Inr (detail e)"
| "detail_of (JSON_SessionReference s) = Inr []"

text \<open>The \<open>catch\<close> block: an instance of \<open>Error\<close> is thrown again, anything else is
  replaced.\<close>

definition catch_rethrow :: "error \<Rightarrow> error + json" where
  "catch_rethrow e =
     (if instanceof_Error e then Inl e else Inl (Error ''Failed to fetch latest session''))"

text \<open>\<open>getLatestSession\<close>. The network is the parameter \<open>fetch\<close>, from the URL to the
  rejection or the response; \<open>encodeURIComponent\<close> and the printing of a number in the
  template literal are JavaScript's and are parameters too. The last argument is optional
  (\<open>None\<close> when the caller leaves it out) and defaults to 2.0. \<open>Inl\<close> is the rejection of the
  returned promise. The last \<open>return response.json()\<close> is not awaited inside \<open>try\<close>, so its
  rejection does not pass through the \<open>catch\<close> block.\<close>

definition getLatestSession ::
    "(string \<Rightarrow> string) \<Rightarrow> (number \<Rightarrow> string) \<Rightarrow> (string \<Rightarrow> error + Response) \<Rightarrow>
     string \<Rightarrow> string \<Rightarrow> string \<Rightarrow> number option \<Rightarrow> error + json" where
  "getLatestSession encodeURIComponent fmt fetch baseUrl userId exerciseName hours =
     (let sessionThresholdHours = (case hours of None \<Rightarrow> 2.0 | Some h \<Rightarrow> h);
          encodedName = encodeURIComponent exerciseName;
          url = baseUrl @ ''/api/v1/logs/'' @ userId @ ''/'' @ encodedName @
                ''/latest-session?session_threshold_hours='' @ fmt sessionThresholdHours
      in case fetch url of
           Inl e \<Rightarrow> catch_rethrow e
         | Inr response \<Rightarrow>
             if status response = 404 then Inr JSON_null
             else if \<not> ok response then
               (let error =
                      (case json response of
                         Inl _ \<Rightarrow> JSON_APIError
                                    \<lparr> detail = ''L-DPS error: '' @ statusText response,
                                      status = Some (status response) \<rparr>
                       | Inr v \<Rightarrow> v)
                in case detail_of error of
                     Inl e \<Rightarrow> catch_rethrow e
                   | Inr d \<Rightarrow> catch_rethrow (Error d))
             else json response)"

text \<open>Sample answers of the network: a 404, a 200 whose body is not JSON, and a 500
  whose body is not JSON either.\<close>

definition response_404 :: Response where
  "response_404 = \<lparr> status = 404, ok = False, statusText = ''Not Found'',
       json = Inr (JSON_APIError \<lparr> detail = ''No previous session found for Squat'',
                                    status = None \<rparr>) \<rparr>"

definition response_200_malformed :: Response where
  "response_200_malformed = \<lparr> status = 200, ok = True, statusText = ''OK'',
       json = Inl (SyntaxError ''Unexpected end of JSON input'') \<rparr>"

definition response_500 :: Response where
  "response_500 = \<lparr> status = 500, ok = False, statusText = ''Internal Server Error'',
       json = Inl (SyntaxError ''Unexpected token'') \<rparr>"

text \<open>A network that answers every request with the same response, and stand-ins for
  the two built-ins that are right on the samples: \<open>encodeURIComponent\<close> leaves a name of
  letters as it is, and the default threshold 2.0 prints as \<open>2\<close>.\<close>

definition fetch_always :: "Response \<Rightarrow> string \<Rightarrow> error + Response" where
  "fetch_always r url = Inr r"

definition encode_letters :: "string \<Rightarrow> string" where
  "encode_letters s = s"

definition print_two :: "number \<Rightarrow> string" where
  "print_two x = ''2''"

text \<open>A stand-in that prints nothing, for samples whose message is not looked at.\<close>

definition print_nothing :: "number \<Rightarrow> string" where
  "print_nothing x = []"

section \<open>utils/progressiveOverload.ts\<close>

datatype strategy = weight | reps | both

record Progression =
  suggestedWeight :: number
  suggestedReps :: number
  lastWeight :: number
  lastReps :: number
  strategy :: strategy
  message :: string

text \<open>The arrow of the message templates, U+2192, as its UTF-8 bytes.\<close>

definition arrow :: string where
  "arrow = [CHR 0xE2, CHR 0x86, CHR 0x92]"

text \<open>\<open>calculateProgression\<close>. The conversion of a number to text inside the template
  literals is JavaScript's own; it is the parameter \<open>fmt\<close>. In the second branch the
  sum \<open>lastWeight + 2.5\<close> and the difference \<open>lastReps - 2\<close> are rounded; neither can
  overflow (\<open>round64_step_no_overflow\<close> below). In the first branch \<open>lastReps\<close> is below
  12, and repetitions are whole numbers (the specification's data model; the logging form
  reads them with \<open>parseInt\<close>), on which adding 1 is exact (\<open>round64_reps_step\<close> below):
  the sum is written as it is.\<close>

definition calculateProgression :: "(number \<Rightarrow> string) \<Rightarrow> SessionReference \<Rightarrow> error + Progression" where
  "calculateProgression fmt reference =
     (case reduce1 (\<lambda>mx st. if weight_used st > weight_used mx then st else mx) (sets reference) of
        Inl e \<Rightarrow> Inl e
      | Inr heaviestSet \<Rightarrow>
          (let lastWeight = weight_used heaviestSet;
               lastReps = reps_completed heaviestSet;
               (suggestedWeight, suggestedReps, strategy) =
                 (if lastReps < 12
                  then (lastWeight, lastReps + 1, reps)
                  else (round64 (lastWeight + 2.5), max 8 (round64 (lastReps - 2)), weight));
               message =
                 (if strategy = reps
                  then ''Add 1 rep ('' @ fmt lastReps @ '' '' @ arrow @ '' '' @ fmt suggestedReps @ '')''
                  else ''Add 2.5kg ('' @ fmt lastWeight @ ''kg '' @ arrow @ '' '' @ fmt suggestedWeight @ ''kg)'')
           in Inr \<lparr> suggestedWeight = suggestedWeight,
                     suggestedReps = suggestedReps,
                     lastWeight = lastWeight,
                     lastReps = lastReps,
                     strategy = strategy,
                     message = message \<rparr>))"

definition isBeatPreviousSession :: "number \<Rightarrow> number \<Rightarrow> SessionReference \<Rightarrow> error + bool" where
  "isBeatPreviousSession currentWeight currentReps reference =
     (case reduce1 (\<lambda>mx st. if weight_used st > weight_used mx then st else mx) (sets reference) of
        Inl e \<Rightarrow> Inl e
      | Inr heaviestSet \<Rightarrow>
          Inr (currentWeight > weight_used heaviestSet \<or>
               (currentWeight = weight_used heaviestSet \<and> currentReps > reps_completed heaviestSet)))"


definition findBestSet :: "SessionReference \<Rightarrow> error + SetData" where
  "findBestSet reference =
     reduce1 (\<lambda>mx st. if weight_used st > weight_used mx then st else mx) (sets reference)"

text \<open>\<open>calculateImprovement\<close> divides by the previous best. JavaScript does not throw on
  a zero divisor: the quotient is an infinity or NaN.\<close>

definition calculateImprovement :: "number \<Rightarrow> number \<Rightarrow> SessionReference \<Rightarrow> error + float64" where
  "calculateImprovement currentWeight currentReps reference =
     (case findBestSet reference of
        Inl e \<Rightarrow> Inl e
      | Inr heaviestSet \<Rightarrow>
          (let previousBest = mul64 (Finite (weight_used heaviestSet))
                                    (Finite (reps_completed heaviestSet));
               currentBest = mul64 (Finite currentWeight) (Finite currentReps)
           in Inr (mul64 (div64 (sub64 currentBest previousBest) previousBest) (Finite 100))))"

text \<open>The callback of the three heaviest-set reductions: the later set replaces the
  kept one only when it is strictly heavier.\<close>

abbreviation pick :: "SetData \<Rightarrow> SetData \<Rightarrow> SetData" where
  "pick \<equiv> (\<lambda>mx st. if weight_used st > weight_used mx then st else mx)"

text \<open>The heaviest set in the words of the specification: position \<open>i\<close> holds an entry
  of maximum weight, and every entry before it is strictly lighter.\<close>

definition heaviest_at :: "SetData list \<Rightarrow> nat \<Rightarrow> bool" where
  "heaviest_at xs i \<longleftrightarrow>
     i < length xs \<and>
     list_all (\<lambda>s. weight_used s \<le> weight_used (xs ! i)) xs \<and>
     list_all (\<lambda>s. weight_used s < weight_used (xs ! i)) (take i xs)"



text \<open>The check of the suggestion against the session it came from:
  \<open>isBeatPreviousSession(p.suggestedWeight, p.suggestedReps, session)\<close> with
  \<open>p = calculateProgression(session)\<close>.\<close>

definition suggestion_beats :: "(number \<Rightarrow> string) \<Rightarrow> SessionReference \<Rightarrow> error + bool" where
  "suggestion_beats fmt reference =
     (case calculateProgression fmt reference of
        Inl e \<Rightarrow> Inl e
      | Inr p \<Rightarrow> isBeatPreviousSession (suggestedWeight p) (suggestedReps p) reference)"

text \<open>The binary64 value that the text \<open>72.7\<close> parses to.\<close>

definition weight_72_7 :: number where
  "weight_72_7 = 5115807701716173 / 2 ^ 46"

text \<open>Sample sessions: a set with its number, weight and repetitions, and a reference
  holding a list of them.\<close>

definition mkSet :: "number \<Rightarrow> number \<Rightarrow> number \<Rightarrow> SetData" where
  "mkSet n w r = \<lparr> set_number = n, weight_used = w, reps_completed = r,
                   duration = None, distance = None, rpe = None, timestamp = [] \<rparr>"

definition mkRef :: "SetData list \<Rightarrow> SessionReference" where
  "mkRef xs = \<lparr> user_id = ''user_123'', exercise_name = ''Leg Press'',
                 session_timestamp = [], sets = xs, total_sets = real (length xs) \<rparr>"

section \<open>context/workoutReducer.ts\<close>

record WorkoutState =
  userId :: string
  currentDay :: string
  dailyWorkout :: "DailyWorkout option"
  currentExerciseIndex :: number
  currentExercise :: "string option"
  referenceData :: "SessionReference option"
  loggedSets :: "LogEntryResponse list"
  isLoading :: bool
  error :: "string option"

record SelectExercisePayload =
  exerciseName :: string
  index :: number

text \<open>The union \<open>WorkoutAction\<close>. \<open>UNTYPED\<close> stands for an action whose \<open>type\<close> is none of
  the union's, which the type checker rules out and only an untyped caller can dispatch;
  it reaches the \<open>default\<close> branch.\<close>

datatype WorkoutAction =
    SET_USER_ID string
  | SET_CURRENT_DAY string
  | LOAD_WORKOUT_START
  | LOAD_WORKOUT_SUCCESS DailyWorkout
  | LOAD_WORKOUT_ERROR string
  | SELECT_EXERCISE SelectExercisePayload
  | LOAD_REFERENCE_SUCCESS "SessionReference option"
  | LOG_SET_SUCCESS LogEntryResponse
  | CLEAR_LOGGED_SETS
  | RESET_SESSION
  | UNTYPED string

fun workoutReducer :: "WorkoutState \<Rightarrow> WorkoutAction \<Rightarrow> error + WorkoutState" where
  "workoutReducer state (SET_USER_ID payload) = Inr (state\<lparr> userId := payload \<rparr>)"
| "workoutReducer state (SET_CURRENT_DAY payload) = Inr (state\<lparr> currentDay := payload \<rparr>)"
| "workoutReducer state LOAD_WORKOUT_START = Inr (state\<lparr> isLoading := True, error := None \<rparr>)"
| "workoutReducer state (LOAD_WORKOUT_SUCCESS payload) =
     Inr (state\<lparr> isLoading := False, dailyWorkout := Some payload, error := None \<rparr>)"
| "workoutReducer state (LOAD_WORKOUT_ERROR payload) =
     Inr (state\<lparr> isLoading := False, error := Some payload, dailyWorkout := None \<rparr>)"
| "workoutReducer state (SELECT_EXERCISE payload) =
     Inr (state\<lparr> currentExercise := Some (exerciseName payload),
                  currentExerciseIndex := index payload,
                  loggedSets := [],
                  referenceData := None \<rparr>)"
| "workoutReducer state (LOAD_REFERENCE_SUCCESS payload) = Inr (state\<lparr> referenceData := payload \<rparr>)"
| "workoutReducer state (LOG_SET_SUCCESS payload) =
     Inr (state\<lparr> loggedSets := loggedSets state @ [payload] \<rparr>)"
| "workoutReducer state CLEAR_LOGGED_SETS = Inr (state\<lparr> loggedSets := [] \<rparr>)"
| "workoutReducer state RESET_SESSION =
     Inr (state\<lparr> currentExercise := None,
                  currentExerciseIndex := - 1,
                  referenceData := None,
                  loggedSets := [],
                  error := None \<rparr>)"
| "workoutReducer state (UNTYPED t) = Inl (Error (''Unknown action type: '' @ t))"

text \<open>A sample state, as \<open>createInitialState\<close> builds it on a Monday, and a logged set.\<close>

definition sample_state :: WorkoutState where
  "sample_state =
     \<lparr> userId = ''user_123'', currentDay = ''Monday'', dailyWorkout = None,
       currentExerciseIndex = - 1, currentExercise = None, referenceData = None,
       loggedSets = [], isLoading = False, error = None \<rparr>"

definition sample_log :: "number \<Rightarrow> LogEntryResponse" where
  "sample_log n =
     \<lparr> LogEntryCreate.user_id = ''user_123'', exercise_name = ''Leg Press'',
       set_number = n, weight_used = 110, reps_completed = 8,
       duration = None, distance = None, rpe = Some 7,
       log_entry_id = ''550e8400'', timestamp = ''2025-10-17T14:32:10.123Z'',
       created_at = ''2025-10-17T14:32:10.123Z'' \<rparr>"

section \<open>Properties of binary64 rounding\<close>

declare bit_length.simps [simp del]

lemma bit_length_upper: "n < 2 ^ bit_length n"
proof (induction n rule: bit_length.induct)
  case (1 n)
  show ?case
  proof (cases "n = 0")
    case True
    then show ?thesis by (simp add: bit_length.simps)
  next
    case False
    then have "n div 2 < 2 ^ bit_length (n div 2)" using 1 by simp
    then have "n < 2 * 2 ^ bit_length (n div 2)" by linarith
    then show ?thesis using False by (simp add: bit_length.simps[of n])
  qed
qed

lemma bit_length_lower: "0 < n \<Longrightarrow> 2 ^ (bit_length n - 1) \<le> n"
proof (induction n rule: bit_length.induct)
  case (1 n)
  show ?case
  proof (cases "n div 2 = 0")
    case True
    then have "bit_length (n div 2) = 0" by (simp add: bit_length.simps)
    then show ?thesis using 1(2) by (simp add: bit_length.simps[of n])
  next
    case False
    then have "2 ^ (bit_length (n div 2) - 1) \<le> n div 2" using 1 by simp
    moreover have "0 < bit_length (n div 2)"
      using False by (simp add: bit_length.simps[of "n div 2"])
    ultimately have "2 ^ bit_length (n div 2) \<le> 2 * (n div 2)"
      by (cases "bit_length (n div 2)") simp_all
    then have "2 ^ bit_length (n div 2) \<le> n" by linarith
    then show ?thesis using 1(2) by (simp add: bit_length.simps[of n])
  qed
qed

lemma bit_length_le: "n < 2 ^ j \<Longrightarrow> bit_length n \<le> j"
proof (cases "n = 0")
  case True
  then show ?thesis by (simp add: bit_length.simps)
next
  case False
  assume "n < 2 ^ j"
  moreover have "2 ^ (bit_length n - 1) \<le> n" using False bit_length_lower by simp
  ultimately have "(2::nat) ^ (bit_length n - 1) < 2 ^ j" by linarith
  then have "bit_length n - 1 < j" by (simp add: power_strict_increasing_iff)
  then show ?thesis by linarith
qed

lemma bit_length_eq: "2 ^ j \<le> n \<Longrightarrow> n < 2 ^ Suc j \<Longrightarrow> bit_length n = Suc j"
proof -
  assume lo: "2 ^ j \<le> n" and hi: "n < 2 ^ Suc j"
  have "(2::nat) ^ j < 2 ^ bit_length n" using lo bit_length_upper[of n] by linarith
  then have "j < bit_length n" by (simp add: power_strict_increasing_iff)
  moreover have "bit_length n \<le> Suc j" using hi by (rule bit_length_le)
  ultimately show ?thesis by linarith
qed

lemma round_half_even_error: "\<bar>of_int (round_half_even q) - q\<bar> \<le> 1 / 2"
proof -
  have "of_int \<lfloor>q\<rfloor> \<le> q" "q < of_int \<lfloor>q\<rfloor> + 1" by linarith+
  then show ?thesis
    by (auto simp: round_half_even_def Let_def)
qed

lemma round_half_even_of_int [simp]: "round_half_even (of_int n) = n"
  by (simp add: round_half_even_def)

lemma scaled_round_error:
  fixes x c t :: real
  assumes "0 < c" "0 < t"
  shows "\<bar>of_int (round_half_even (x * c / t)) * t / c - x\<bar> \<le> t / (2 * c)"
proof -
  let ?q = "x * c / t"
  have x: "?q * (t / c) = x" using assms by simp
  have "of_int (round_half_even ?q) * t / c - x =
        (of_int (round_half_even ?q) - ?q) * (t / c)"
    unfolding left_diff_distrib x by simp
  then have "\<bar>of_int (round_half_even ?q) * t / c - x\<bar> =
        \<bar>of_int (round_half_even ?q) - ?q\<bar> * (t / c)"
    using assms by (simp only: abs_mult) simp
  also have "\<dots> \<le> (1 / 2) * (t / c)"
    using assms by (intro mult_right_mono round_half_even_error) simp
  finally show ?thesis by simp
qed

lemma round64_error_shift:
  "\<bar>round64 x - x\<bar> \<le> 2 ^ ulp_shift x / (2 * 2 ^ 1074)"
  unfolding round64_def by (rule scaled_round_error) simp_all

lemma ulp_shift_le:
  assumes "\<bar>x\<bar> < 2 ^ Suc E"
  shows "ulp_shift x \<le> E + 1022"
proof -
  have "\<bar>x\<bar> * 2 ^ 1074 < 2 ^ Suc E * 2 ^ 1074" using assms by simp
  also have "\<dots> = 2 ^ (E + 1075)" by (simp add: power_add)
  finally have "\<lfloor>\<bar>x\<bar> * 2 ^ 1074\<rfloor> < 2 ^ (E + 1075)"
    by (simp add: floor_less_iff)
  then have "nat \<lfloor>\<bar>x\<bar> * 2 ^ 1074\<rfloor> < 2 ^ (E + 1075)"
    by (simp add: nat_less_iff)
  then have "bit_length (nat \<lfloor>\<bar>x\<bar> * 2 ^ 1074\<rfloor>) \<le> E + 1075"
    by (rule bit_length_le)
  then show ?thesis by (simp add: ulp_shift_def)
qed

lemma round64_error:
  assumes "\<bar>x\<bar> < 2 ^ Suc E"
  shows "\<bar>round64 x - x\<bar> \<le> 2 ^ E / 2 ^ 53"
proof -
  have "(2::real) ^ ulp_shift x \<le> 2 ^ (E + 1022)"
    using ulp_shift_le[OF assms] by (simp add: power_increasing)
  then have "(2::real) ^ ulp_shift x / (2 * 2 ^ 1074) \<le> 2 ^ (E + 1022) / (2 * 2 ^ 1074)"
    by (simp add: divide_right_mono)
  also have "\<dots> = 2 ^ E / 2 ^ 53"
    by (simp add: power_add)
  finally show ?thesis using round64_error_shift[of x] by linarith
qed

lemma ulp_shift_normal:
  assumes "2 ^ k \<le> \<bar>x\<bar>" "\<bar>x\<bar> < 2 ^ Suc k"
  shows "ulp_shift x = k + 1022"
proof -
  let ?n = "nat \<lfloor>\<bar>x\<bar> * 2 ^ 1074\<rfloor>"
  have "(2::real) ^ (k + 1074) = 2 ^ k * 2 ^ 1074" by (simp add: power_add)
  also have "\<dots> \<le> \<bar>x\<bar> * 2 ^ 1074" using assms(1) by simp
  finally have "(2::int) ^ (k + 1074) \<le> \<lfloor>\<bar>x\<bar> * 2 ^ 1074\<rfloor>"
    by (simp add: le_floor_iff)
  then have lo: "2 ^ (k + 1074) \<le> ?n"
    by (simp add: le_nat_iff)
  have "\<bar>x\<bar> * 2 ^ 1074 < 2 ^ Suc k * 2 ^ 1074" using assms(2) by simp
  also have "\<dots> = 2 ^ Suc (k + 1074)" by (simp add: power_add)
  finally have "\<lfloor>\<bar>x\<bar> * 2 ^ 1074\<rfloor> < 2 ^ Suc (k + 1074)"
    by (simp add: floor_less_iff)
  then have hi: "?n < 2 ^ Suc (k + 1074)"
    by (simp add: nat_less_iff)
  have "bit_length ?n = Suc (k + 1074)" using lo hi by (rule bit_length_eq)
  then show ?thesis by (simp add: ulp_shift_def)
qed

lemma round64_normal:
  assumes "2 ^ k \<le> \<bar>x\<bar>" "\<bar>x\<bar> < 2 ^ Suc k"
  shows "round64 x = of_int (round_half_even (x * 2 ^ 52 / 2 ^ k)) * 2 ^ k / 2 ^ 52"
proof -
  have s: "ulp_shift x = k + 1022" using assms by (rule ulp_shift_normal)
  have a: "x * 2 ^ 1074 / 2 ^ (k + 1022) = x * 2 ^ 52 / 2 ^ k"
    by (simp add: power_add)
  have b: "y * 2 ^ (k + 1022) / 2 ^ 1074 = y * 2 ^ k / 2 ^ 52" for y :: real
    by (simp add: power_add)
  show ?thesis unfolding round64_def s a b ..
qed

lemma round64_0 [simp]: "round64 0 = 0"
  by (simp add: round64_def round_half_even_def)

lemma round64_of_int:
  assumes "\<bar>n\<bar> < 2 ^ 53"
  shows "round64 (of_int n) = of_int n"
proof (cases "n = 0")
  case True
  then show ?thesis by simp
next
  case False
  define k where "k = bit_length (nat \<bar>n\<bar>) - 1"
  have pos: "0 < nat \<bar>n\<bar>" using False by simp
  have lo: "2 ^ k \<le> nat \<bar>n\<bar>" unfolding k_def using bit_length_lower[OF pos] .
  have "0 < bit_length (nat \<bar>n\<bar>)"
    using pos by (simp add: bit_length.simps[of "nat \<bar>n\<bar>"])
  then have "Suc k = bit_length (nat \<bar>n\<bar>)" by (simp add: k_def)
  then have hi: "nat \<bar>n\<bar> < 2 ^ Suc k" using bit_length_upper[of "nat \<bar>n\<bar>"] by simp
  have "nat \<bar>n\<bar> < 2 ^ 53" using assms by (simp add: nat_less_iff)
  then have "(2::nat) ^ k < 2 ^ 53" using lo by linarith
  then have "k < 53" by (rule power_less_imp_less_exp[rotated]) simp
  then have k52: "k \<le> 52" by simp
  have rlo: "2 ^ k \<le> \<bar>real_of_int n\<bar>"
  proof -
    have "real (2 ^ k) \<le> real (nat \<bar>n\<bar>)" using lo by (simp only: of_nat_le_iff)
    then show ?thesis by simp
  qed
  have rhi: "\<bar>real_of_int n\<bar> < 2 ^ Suc k"
  proof -
    have "real (nat \<bar>n\<bar>) < real (2 ^ Suc k)" using hi by (simp only: of_nat_less_iff)
    then show ?thesis by simp
  qed
  have p: "(2::real) ^ 52 = 2 ^ (52 - k) * 2 ^ k"
    using k52 by (simp flip: power_add)
  have q: "real_of_int n * 2 ^ 52 / 2 ^ k = of_int (n * 2 ^ (52 - k))"
    unfolding p by simp
  have "round64 (of_int n) = of_int (n * 2 ^ (52 - k)) * 2 ^ k / 2 ^ 52"
    unfolding round64_normal[OF rlo rhi] q round_half_even_of_int ..
  also have "\<dots> = of_int n"
    unfolding p by simp
  finally show ?thesis .
qed

lemma round64_numeral:
  "numeral n < (2::int) ^ 53 \<Longrightarrow> round64 (numeral n) = numeral n"
  using round64_of_int[of "numeral n"] by simp

lemma round_half_even_bound:
  assumes "\<bar>q\<bar> < of_int N - 1 / 2"
  shows "\<bar>round_half_even q\<bar> \<le> N - 1"
proof -
  have "\<bar>of_int (round_half_even q) - q\<bar> \<le> 1 / 2" by (rule round_half_even_error)
  then have "\<bar>real_of_int (round_half_even q)\<bar> < of_int N" using assms by linarith
  then have "real_of_int \<bar>round_half_even q\<bar> < real_of_int N"
    by simp
  then have "\<bar>round_half_even q\<bar> < N"
    by (simp only: of_int_less_iff)
  then show ?thesis by simp
qed

lemma round64_no_overflow:
  assumes "\<bar>x\<bar> < 2 ^ 1024 - 2 ^ 970"
  shows "\<bar>round64 x\<bar> \<le> max64"
proof (cases "\<bar>x\<bar> < 2 ^ 1023")
  case True
  have "\<bar>round64 x - x\<bar> \<le> 2 ^ 1022 / 2 ^ 53"
    using round64_error[of x 1022] True by simp
  then have "\<bar>round64 x\<bar> \<le> 2 ^ 1023 + 2 ^ 1022 / 2 ^ 53" using True by linarith
  also have "\<dots> \<le> max64" by (simp add: max64_def)
  finally show ?thesis .
next
  case False
  then have lo: "2 ^ 1023 \<le> \<bar>x\<bar>" by simp
  have hi: "\<bar>x\<bar> < 2 ^ Suc 1023" using assms by simp
  let ?q = "x * 2 ^ 52 / 2 ^ 1023"
  have "\<bar>?q\<bar> = \<bar>x\<bar> * 2 ^ 52 / 2 ^ 1023" by (simp add: abs_mult)
  also have "\<dots> < (2 ^ 1024 - 2 ^ 970) * 2 ^ 52 / 2 ^ 1023"
    using assms by (simp add: divide_strict_right_mono)
  also have "\<dots> = of_int (2 ^ 53) - 1 / 2" by simp
  finally have "\<bar>round_half_even ?q\<bar> \<le> 2 ^ 53 - 1"
    by (rule round_half_even_bound)
  then have "real_of_int \<bar>round_half_even ?q\<bar> \<le> real_of_int (2 ^ 53 - 1)"
    by (simp only: of_int_le_iff)
  then have "\<bar>real_of_int (round_half_even ?q)\<bar> \<le> 2 ^ 53 - 1"
    by simp
  then have "\<bar>real_of_int (round_half_even ?q)\<bar> * (2 ^ 1023 / 2 ^ 52) \<le> (2 ^ 53 - 1) * (2 ^ 1023 / 2 ^ 52)"
    by (intro mult_right_mono) simp_all
  moreover have "\<bar>round64 x\<bar> = \<bar>real_of_int (round_half_even ?q)\<bar> * (2 ^ 1023 / 2 ^ 52)"
    unfolding round64_normal[OF lo hi] by (simp add: abs_mult)
  moreover have "(2 ^ 53 - 1) * (2 ^ 1023 / 2 ^ 52) = max64"
    by (simp add: max64_def)
  ultimately show ?thesis by linarith
qed

lemma round64_step_no_overflow:
  assumes "\<bar>w\<bar> \<le> max64" "\<bar>c\<bar> \<le> 4"
  shows "\<bar>round64 (w + c)\<bar> \<le> max64"
proof -
  have "\<bar>w + c\<bar> \<le> max64 + 4" using assms by linarith
  also have "\<dots> < 2 ^ 1024 - 2 ^ 970" by (simp add: max64_def)
  finally show ?thesis by (rule round64_no_overflow)
qed

lemma round64_reps_step:
  assumes "0 \<le> n" "n < 12"
  shows "round64 (of_int n + 1) = of_int n + 1"
proof -
  have "\<bar>n + 1\<bar> < 2 ^ 53" using assms by simp
  then have "round64 (of_int (n + 1)) = of_int (n + 1)" by (rule round64_of_int)
  then show ?thesis by simp
qed


lemma exact64_numeral: "numeral n < (2::int) ^ 53 \<Longrightarrow> exact64 (numeral n)"
proof -
  assume a: "numeral n < (2::int) ^ 53"
  then have "real_of_int (numeral n) < real_of_int (2 ^ 53)" by (simp only: of_int_less_iff)
  then have "(numeral n :: real) < 2 ^ 53" by simp
  also have "\<dots> \<le> max64" by (simp add: max64_def)
  finally show ?thesis using a by (simp add: exact64_def round64_numeral)
qed

lemma round64_weight_72_7: "round64 (727 / 10) = weight_72_7"
  unfolding weight_72_7_def
  by (subst round64_normal[where k = 6]) (simp_all add: round_half_even_def)

section \<open>Properties of the session clusterer\<close>

lemma accumulate_take: "accumulate th p es = take (length (accumulate th p es)) es"
  by (induction es arbitrary: p) simp_all

lemma length_accumulate: "length (accumulate th p es) \<le> length es"
  by (induction es arbitrary: p) simp_all

lemma gaps_within_accumulate: "gaps_within th (p # accumulate th p es)"
  by (induction es arbitrary: p) simp_all

lemma accumulate_stops:
  "length (accumulate th p es) < length es \<Longrightarrow>
   LogEntry.timestamp ((p # es) ! length (accumulate th p es)) -
     LogEntry.timestamp (es ! length (accumulate th p es)) > th"
proof (induction es arbitrary: p)
  case Nil
  then show ?case by simp
next
  case (Cons e es)
  show ?case
  proof (cases "LogEntry.timestamp p - LogEntry.timestamp e \<le> th")
    case True
    then show ?thesis using Cons by simp
  next
    case False
    then show ?thesis by simp
  qed
qed

lemma gaps_within_nth:
  "gaps_within th es \<Longrightarrow> Suc k < length es \<Longrightarrow>
   LogEntry.timestamp (es ! k) - LogEntry.timestamp (es ! Suc k) \<le> th"
proof (induction th es arbitrary: k rule: gaps_within.induct)
  case (1 th a b es)
  then show ?case by (cases k) simp_all
qed simp_all

lemma latest_cluster_prefix:
  assumes "xs \<noteq> []"
  shows "\<exists>n. latest_cluster th xs = Some (take n xs) \<and> 0 < n \<and> n \<le> length xs \<and>
             gaps_within th (take n xs) \<and>
             (n < length xs \<longrightarrow> LogEntry.timestamp (xs ! (n - 1)) - LogEntry.timestamp (xs ! n) > th)"
proof -
  obtain e es where xs: "xs = e # es" using assms by (cases xs) auto
  let ?k = "length (accumulate th e es)"
  have t: "e # accumulate th e es = take (Suc ?k) xs"
    using accumulate_take[of th e es] xs by simp
  have "latest_cluster th xs = Some (take (Suc ?k) xs)"
    using t xs by simp
  moreover have "Suc ?k \<le> length xs" using length_accumulate[of th e es] xs by simp
  moreover have "gaps_within th (take (Suc ?k) xs)"
    using gaps_within_accumulate[of th e es] t by simp
  moreover have "Suc ?k < length xs \<longrightarrow>
      LogEntry.timestamp (xs ! (Suc ?k - 1)) - LogEntry.timestamp (xs ! Suc ?k) > th"
    using accumulate_stops[of th e es] xs by simp
  ultimately show ?thesis by blast
qed

lemma longer_prefix_has_gap:
  assumes "0 < n" "n < m" "m \<le> length xs"
    and "LogEntry.timestamp (xs ! (n - 1)) - LogEntry.timestamp (xs ! n) > th"
  shows "\<not> gaps_within th (take m xs)"
proof
  assume g: "gaps_within th (take m xs)"
  obtain k where k: "n = Suc k" using assms(1) by (cases n) auto
  have "Suc k < length (take m xs)" using assms k by simp
  then have "LogEntry.timestamp (take m xs ! k) - LogEntry.timestamp (take m xs ! Suc k) \<le> th"
    using gaps_within_nth[OF g] by blast
  moreover have "take m xs ! k = xs ! k" "take m xs ! Suc k = xs ! Suc k"
    using assms k by simp_all
  ultimately show False using assms(4) k by simp
qed

lemma query_nonempty:
  assumes "\<exists>e \<in> set ledger. LogEntry.user_id e = uid \<and> LogEntry.exercise_name e = ex"
  shows "query ledger uid ex \<noteq> []"
proof -
  have "set (query ledger uid ex) = {e \<in> set ledger. LogEntry.user_id e = uid \<and> LogEntry.exercise_name e = ex}"
    by (simp add: query_def)
  then show ?thesis using assms by auto
qed

text \<open>
  C1. For a pair of user and exercise with at least one entry, the latest-session query
  answers with a session: its sets are the first \<open>n\<close> entries of the pair's
  timestamp-descending list, in ascending order of set number, where every consecutive gap
  among those \<open>n\<close> entries is at most the threshold (two hours when none is given), no
  longer prefix has that property, and when older entries remain the gap to the first of
  them exceeds the threshold. The witness is the ledger with entries at 10:00, 10:05, 07:00
  and 07:05 and the default threshold, whose session is the pair of 10:00 and 10:05.
\<close>
theorem latest_session_is_maximal_prefix:
  assumes "\<exists>e \<in> set ledger. LogEntry.user_id e = uid \<and> LogEntry.exercise_name e = ex"
  shows "\<exists>n s. getLatestSessionReference ledger uid ex threshold = Some s \<and>
           0 < n \<and> n \<le> length (query ledger uid ex) \<and>
           Session.sets s = sort_key LogEntry.set_number (take n (query ledger uid ex)) \<and>
           mset (Session.sets s) = mset (take n (query ledger uid ex)) \<and>
           Session.total_sets s = n \<and>
           gaps_within (threshold_or_default threshold) (take n (query ledger uid ex)) \<and>
           (\<forall>m. n < m \<and> m \<le> length (query ledger uid ex) \<longrightarrow>
                \<not> gaps_within (threshold_or_default threshold) (take m (query ledger uid ex))) \<and>
           (n < length (query ledger uid ex) \<longrightarrow>
              LogEntry.timestamp (query ledger uid ex ! (n - 1)) -
                LogEntry.timestamp (query ledger uid ex ! n) > threshold_or_default threshold) \<and>
           sorted (map (\<lambda>e. - LogEntry.timestamp e) (query ledger uid ex)) \<and>
           mset (query ledger uid ex) =
             filter_mset (\<lambda>e. LogEntry.user_id e = uid \<and> LogEntry.exercise_name e = ex) (mset ledger)"
proof -
  let ?xs = "query ledger uid ex"
  let ?th = "threshold_or_default threshold"
  have ne: "?xs \<noteq> []" using query_nonempty[OF assms] .
  obtain n where n: "latest_cluster ?th ?xs = Some (take n ?xs)" "0 < n" "n \<le> length ?xs"
      "gaps_within ?th (take n ?xs)"
      "n < length ?xs \<longrightarrow> LogEntry.timestamp (?xs ! (n - 1)) - LogEntry.timestamp (?xs ! n) > ?th"
    using latest_cluster_prefix[OF ne, of ?th] by blast
  obtain e es where c: "take n ?xs = e # es"
    using n(2) ne by (cases "take n ?xs") auto
  obtain s where s: "package (take n ?xs) = Some s"
      "Session.sets s = sort_key LogEntry.set_number (take n ?xs)"
      "Session.total_sets s = length (take n ?xs)"
    unfolding c by simp
  have r: "getLatestSessionReference ledger uid ex threshold = Some s"
    using n(1) s(1) by (simp add: getLatestSessionReference_def)
  have s1: "Session.sets s = sort_key LogEntry.set_number (take n ?xs)"
    using s(2) .
  have s2: "mset (Session.sets s) = mset (take n ?xs)"
    using s1 by simp
  have s3: "Session.total_sets s = n"
    using s(3) n(3) by simp
  have mx: "\<forall>m. n < m \<and> m \<le> length ?xs \<longrightarrow> \<not> gaps_within ?th (take m ?xs)"
  proof (intro allI impI)
    fix m assume m: "n < m \<and> m \<le> length ?xs"
    then have "n < length ?xs" by simp
    then have "LogEntry.timestamp (?xs ! (n - 1)) - LogEntry.timestamp (?xs ! n) > ?th"
      using n(5) by simp
    then show "\<not> gaps_within ?th (take m ?xs)"
      using longer_prefix_has_gap[OF n(2)] m by blast
  qed
  have q1: "sorted (map (\<lambda>e. - LogEntry.timestamp e) ?xs)"
    by (simp add: query_def)
  have q2: "mset ?xs = filter_mset (\<lambda>e. LogEntry.user_id e = uid \<and> LogEntry.exercise_name e = ex) (mset ledger)"
    by (simp add: query_def)
  show ?thesis
    using r n(2,3,4,5) s1 s2 s3 mx q1 q2 by blast
qed

lemma example_query:
  "query example_ledger ''user_123'' ''Leg Press'' =
     [entry_at 4 (clock 10 5) 2, entry_at 3 (clock 10 0) 1,
      entry_at 2 (clock 7 5) 2, entry_at 1 (clock 7 0) 1]"
  by (simp add: query_def example_ledger_def entry_at_def clock_def)

lemma example_session:
  "getLatestSessionReference example_ledger ''user_123'' ''Leg Press'' None =
     Some \<lparr> Session.session_timestamp = clock 10 0,
            sets = [entry_at 3 (clock 10 0) 1, entry_at 4 (clock 10 5) 2],
            total_sets = 2 \<rparr>"
  by (simp add: getLatestSessionReference_def example_query
      threshold_or_default_def two_hours_def entry_at_def clock_def)

theorem latest_session_is_maximal_prefix_witness:
  "(\<exists>e \<in> set example_ledger. LogEntry.user_id e = ''user_123'' \<and> LogEntry.exercise_name e = ''Leg Press'') \<and>
   (\<exists>s. getLatestSessionReference example_ledger ''user_123'' ''Leg Press'' None = Some s \<and>
        Session.sets s = [entry_at 3 (clock 10 0) 1, entry_at 4 (clock 10 5) 2] \<and>
        Session.sets s = sort_key LogEntry.set_number
                           (take 2 (query example_ledger ''user_123'' ''Leg Press'')))"
proof -
  have h: "\<exists>e \<in> set example_ledger. LogEntry.user_id e = ''user_123'' \<and> LogEntry.exercise_name e = ''Leg Press''"
    by (simp add: example_ledger_def entry_at_def)
  let ?xs = "query example_ledger ''user_123'' ''Leg Press''"
  obtain n s where ns: "getLatestSessionReference example_ledger ''user_123'' ''Leg Press'' None = Some s"
      "Session.sets s = sort_key LogEntry.set_number (take n ?xs)" "Session.total_sets s = n"
    using latest_session_is_maximal_prefix[OF h, of None] by blast
  have s: "s = \<lparr> Session.session_timestamp = clock 10 0,
                  sets = [entry_at 3 (clock 10 0) 1, entry_at 4 (clock 10 5) 2],
                  total_sets = 2 \<rparr>"
    using ns(1) by (simp add: example_session)
  have "n = 2" using ns(3) by (simp add: s)
  then show ?thesis using h ns(1,2) s by simp
qed

lemma found_session_nonempty:
  assumes "getLatestSessionReference ledger uid ex threshold = Some s"
  shows "Session.sets s \<noteq> [] \<and> 0 < Session.total_sets s"
proof (cases "query ledger uid ex")
  case Nil
  then show ?thesis using assms by (simp add: getLatestSessionReference_def)
next
  case (Cons e es)
  let ?c = "e # accumulate (threshold_or_default threshold) e es"
  have s: "package ?c = Some s"
    using assms Cons by (simp add: getLatestSessionReference_def)
  then have "length (Session.sets s) = length ?c" "Session.total_sets s = length ?c"
    by (auto simp only: package.simps option.inject Session.simps length_sort)
  then show ?thesis by auto
qed

lemma empty_history_not_found:
  assumes "\<not> (\<exists>e \<in> set ledger. LogEntry.user_id e = uid \<and> LogEntry.exercise_name e = ex)"
  shows "getLatestSessionReference ledger uid ex threshold = None"
proof -
  have "filter (\<lambda>e. LogEntry.user_id e = uid \<and> LogEntry.exercise_name e = ex) ledger = []"
    using assms by (simp add: filter_empty_conv)
  then show ?thesis by (simp add: getLatestSessionReference_def query_def)
qed

section \<open>Properties of the logbook client\<close>

lemma catch_rethrow_throws: "\<exists>e. catch_rethrow x = Inl e \<and> instanceof_Error e"
  by (cases x) (simp_all add: catch_rethrow_def)

lemma getLatestSession_fetch_rejects:
  assumes "fetch (baseUrl @ ''/api/v1/logs/'' @ uid @ ''/'' @ enc exn @
                  ''/latest-session?session_threshold_hours='' @
                  fmt (case hours of None \<Rightarrow> 2.0 | Some h \<Rightarrow> h)) = Inl x"
  shows "\<exists>e. getLatestSession enc fmt fetch baseUrl uid exn hours = Inl e \<and> instanceof_Error e"
  using assms catch_rethrow_throws[of x] by (simp add: getLatestSession_def)

text \<open>
  C7, as stated, says that \<open>getLatestSession\<close> throws only for non-OK responses other than
  404. An OK response whose body does not parse makes it throw as well: the rejection of
  \<open>response.json()\<close> is the rejection of the returned promise.
\<close>
theorem getLatestSession_throws_on_ok_response:
  "status response_200_malformed \<noteq> 404 \<and> ok response_200_malformed \<and>
   getLatestSession encode_letters print_two (fetch_always response_200_malformed)
       ''http://localhost:8001'' ''user_123'' ''Squat'' None =
     Inl (SyntaxError ''Unexpected end of JSON input'')"
  by (simp add: getLatestSession_def fetch_always_def response_200_malformed_def)

text \<open>
  C7, amended. When the service answers the request with status 404, \<open>getLatestSession\<close>
  returns \<open>null\<close> and does not throw. On any other response that is not OK it throws an
  \<open>Error\<close>. On an OK response it returns what \<open>response.json()\<close> yields. So for a response
  it throws exactly when the status is not 404 and either the response is not OK or its
  body fails to parse.
\<close>
theorem getLatestSession_outcomes:
  assumes "fetch (baseUrl @ ''/api/v1/logs/'' @ uid @ ''/'' @ enc exn @
                  ''/latest-session?session_threshold_hours='' @
                  fmt (case hours of None \<Rightarrow> 2.0 | Some h \<Rightarrow> h)) = Inr response"
  shows "(status response = 404 \<longrightarrow>
            getLatestSession enc fmt fetch baseUrl uid exn hours = Inr JSON_null) \<and>
         (status response \<noteq> 404 \<and> \<not> ok response \<longrightarrow>
            (\<exists>e. getLatestSession enc fmt fetch baseUrl uid exn hours = Inl e \<and>
                 instanceof_Error e)) \<and>
         (status response \<noteq> 404 \<and> ok response \<longrightarrow>
            getLatestSession enc fmt fetch baseUrl uid exn hours = json response) \<and>
         (isl (getLatestSession enc fmt fetch baseUrl uid exn hours) \<longleftrightarrow>
            status response \<noteq> 404 \<and> (\<not> ok response \<or> isl (json response)))"
proof -
  let ?g = "getLatestSession enc fmt fetch baseUrl uid exn hours"
  have nf: "?g = Inr JSON_null" if "status response = 404"
    using assms that by (simp add: getLatestSession_def)
  have okc: "?g = json response" if "status response \<noteq> 404" "ok response"
    using assms that by (simp add: getLatestSession_def)
  have bad: "\<exists>e. ?g = Inl e \<and> instanceof_Error e" if "status response \<noteq> 404" "\<not> ok response"
  proof -
    define body where "body =
      (case json response of
         Inl _ \<Rightarrow> JSON_APIError \<lparr> detail = ''L-DPS error: '' @ statusText response,
                                   status = Some (status response) \<rparr>
       | Inr v \<Rightarrow> v)"
    have g: "?g = (case detail_of body of Inl e \<Rightarrow> catch_rethrow e | Inr d \<Rightarrow> catch_rethrow (Error d))"
      using assms that by (simp add: getLatestSession_def body_def)
    show ?thesis
      unfolding g using catch_rethrow_throws by (cases "detail_of body") simp_all
  qed
  have iff: "isl ?g \<longleftrightarrow> status response \<noteq> 404 \<and> (\<not> ok response \<or> isl (json response))"
  proof (cases "status response = 404")
    case True
    then show ?thesis using nf by simp
  next
    case False
    show ?thesis
    proof (cases "ok response")
      case True
      then show ?thesis using okc[OF False] False by simp
    next
      case no: False
      obtain e where "?g = Inl e" using bad[OF False no] by blast
      then show ?thesis using False no by simp
    qed
  qed
  show ?thesis using nf okc bad iff by blast
qed

theorem getLatestSession_outcomes_witness:
  "getLatestSession encode_letters print_two (fetch_always response_404)
       ''http://localhost:8001'' ''user_123'' ''Squat'' None = Inr JSON_null \<and>
   isl (getLatestSession encode_letters print_two (fetch_always response_500)
       ''http://localhost:8001'' ''user_123'' ''Squat'' None) \<and>
   isl (getLatestSession encode_letters print_two (fetch_always response_200_malformed)
       ''http://localhost:8001'' ''user_123'' ''Squat'' None)"
proof -
  have a: "getLatestSession encode_letters print_two (fetch_always response_404)
       ''http://localhost:8001'' ''user_123'' ''Squat'' None = Inr JSON_null"
    using getLatestSession_outcomes[where fetch = "fetch_always response_404"
        and response = response_404 and baseUrl = "''http://localhost:8001''"
        and uid = "''user_123''" and enc = encode_letters and exn = "''Squat''"
        and fmt = print_two and hours = None]
    by (simp add: fetch_always_def response_404_def)
  have b: "isl (getLatestSession encode_letters print_two (fetch_always response_500)
       ''http://localhost:8001'' ''user_123'' ''Squat'' None)"
    using getLatestSession_outcomes[where fetch = "fetch_always response_500"
        and response = response_500 and baseUrl = "''http://localhost:8001''"
        and uid = "''user_123''" and enc = encode_letters and exn = "''Squat''"
        and fmt = print_two and hours = None]
    by (simp add: fetch_always_def response_500_def)
  have c: "isl (getLatestSession encode_letters print_two (fetch_always response_200_malformed)
       ''http://localhost:8001'' ''user_123'' ''Squat'' None)"
    using getLatestSession_outcomes[where fetch = "fetch_always response_200_malformed"
        and response = response_200_malformed and baseUrl = "''http://localhost:8001''"
        and uid = "''user_123''" and enc = encode_letters and exn = "''Squat''"
        and fmt = print_two and hours = None]
    by (simp add: fetch_always_def response_200_malformed_def)
  show ?thesis using a b c by simp
qed

section \<open>Properties of the progression logic\<close>

lemma heaviest_at_iff:
  "heaviest_at xs i \<longleftrightarrow>
     i < length xs \<and> (\<forall>j < length xs. weight_used (xs ! j) \<le> weight_used (xs ! i)) \<and>
     (\<forall>j < i. weight_used (xs ! j) < weight_used (xs ! i))"
  by (auto simp: heaviest_at_def list_all_length)

lemma foldl_pick_heaviest: "\<exists>i. heaviest_at (a # xs) i \<and> foldl pick a xs = (a # xs) ! i"
proof (induction xs rule: rev_induct)
  case Nil
  have "heaviest_at [a] 0" by (simp add: heaviest_at_def)
  then show ?case by auto
next
  case (snoc x xs)
  then obtain i where h: "heaviest_at (a # xs) i" and r: "foldl pick a xs = (a # xs) ! i"
    by blast
  let ?ys = "a # xs @ [x]"
  have il: "i < Suc (length xs)" using h by (simp add: heaviest_at_iff)
  have nth_old: "\<And>j. j < Suc (length xs) \<Longrightarrow> ?ys ! j = (a # xs) ! j"
    by (metis append_Cons length_Cons nth_append)
  have nth_new: "?ys ! Suc (length xs) = x"
    by (metis append_Cons length_Cons nth_append_length)
  show ?case
  proof (cases "weight_used x > weight_used ((a # xs) ! i)")
    case True
    have "heaviest_at ?ys (Suc (length xs))"
      unfolding heaviest_at_iff
    proof (intro conjI allI impI)
      show "Suc (length xs) < length ?ys" by simp
    next
      fix j assume "j < length ?ys"
      then have "j < Suc (length xs) \<or> j = Suc (length xs)" by auto
      then show "weight_used (?ys ! j) \<le> weight_used (?ys ! Suc (length xs))"
      proof
        assume jl: "j < Suc (length xs)"
        then have "weight_used ((a # xs) ! j) \<le> weight_used ((a # xs) ! i)"
          using h by (simp add: heaviest_at_iff)
        then show ?thesis using True nth_old[OF jl] nth_new by simp
      next
        assume "j = Suc (length xs)" then show ?thesis by simp
      qed
    next
      fix j assume jl: "j < Suc (length xs)"
      then have "weight_used ((a # xs) ! j) \<le> weight_used ((a # xs) ! i)"
        using h by (simp add: heaviest_at_iff)
      then show "weight_used (?ys ! j) < weight_used (?ys ! Suc (length xs))"
        using True nth_old[OF jl] nth_new by simp
    qed
    moreover have "foldl pick a (xs @ [x]) = ?ys ! Suc (length xs)"
      using True r nth_new by simp
    ultimately show ?thesis by blast
  next
    case False
    have "heaviest_at ?ys i"
      unfolding heaviest_at_iff
    proof (intro conjI allI impI)
      show "i < length ?ys" using il by simp
    next
      fix j assume "j < length ?ys"
      then have "j < Suc (length xs) \<or> j = Suc (length xs)" by auto
      then show "weight_used (?ys ! j) \<le> weight_used (?ys ! i)"
      proof
        assume jl: "j < Suc (length xs)"
        then have "weight_used ((a # xs) ! j) \<le> weight_used ((a # xs) ! i)"
          using h by (simp add: heaviest_at_iff)
        then show ?thesis using nth_old[OF jl] nth_old[OF il] by simp
      next
        assume "j = Suc (length xs)"
        then show ?thesis using False nth_new nth_old[OF il] by simp
      qed
    next
      fix j assume ji: "j < i"
      then have jl: "j < Suc (length xs)" using il by simp
      have "weight_used ((a # xs) ! j) < weight_used ((a # xs) ! i)"
        using h ji by (simp add: heaviest_at_iff)
      then show "weight_used (?ys ! j) < weight_used (?ys ! i)"
        using nth_old[OF jl] nth_old[OF il] by simp
    qed
    moreover have "foldl pick a (xs @ [x]) = ?ys ! i"
      using False r nth_old[OF il] by simp
    ultimately show ?thesis by blast
  qed
qed

lemma heaviest_at_unique: "heaviest_at xs i \<Longrightarrow> heaviest_at xs j \<Longrightarrow> i = j"
proof (rule ccontr)
  assume hi: "heaviest_at xs i" and hj: "heaviest_at xs j" and ne: "i \<noteq> j"
  then consider "i < j" | "j < i" by linarith
  then show False
  proof cases
    case 1
    then have "weight_used (xs ! i) < weight_used (xs ! j)" using hj by (simp add: heaviest_at_iff)
    moreover have "weight_used (xs ! j) \<le> weight_used (xs ! i)" using hi hj by (simp add: heaviest_at_iff)
    ultimately show False by simp
  next
    case 2
    then have "weight_used (xs ! j) < weight_used (xs ! i)" using hi by (simp add: heaviest_at_iff)
    moreover have "weight_used (xs ! i) \<le> weight_used (xs ! j)" using hi hj by (simp add: heaviest_at_iff)
    ultimately show False by simp
  qed
qed

lemma reduce1_heaviest:
  assumes "heaviest_at xs i"
  shows "reduce1 pick xs = Inr (xs ! i)"
proof (cases xs)
  case Nil
  then show ?thesis using assms by (simp add: heaviest_at_def)
next
  case (Cons a ys)
  obtain k where k: "heaviest_at (a # ys) k" and r: "foldl pick a ys = (a # ys) ! k"
    using foldl_pick_heaviest by blast
  have "k = i" using heaviest_at_unique k assms Cons by blast
  then show ?thesis using Cons r by simp
qed

lemma heaviest_at_exists: "xs \<noteq> [] \<Longrightarrow> \<exists>i. heaviest_at xs i"
  by (cases xs) (use foldl_pick_heaviest in blast)+


lemma mkSet_sel [simp]:
  "set_number (mkSet n w r) = n" "weight_used (mkSet n w r) = w" "reps_completed (mkSet n w r) = r"
  by (simp_all add: mkSet_def)

lemma mkRef_sets [simp]: "sets (mkRef xs) = xs"
  by (simp add: mkRef_def)

lemma findBestSet_heaviest: "heaviest_at (sets r) i \<Longrightarrow> findBestSet r = Inr (sets r ! i)"
  by (simp add: findBestSet_def reduce1_heaviest)

lemma isBeat_heaviest:
  "heaviest_at (sets r) i \<Longrightarrow>
   isBeatPreviousSession cw cr r =
     Inr (cw > weight_used (sets r ! i) \<or>
          (cw = weight_used (sets r ! i) \<and> cr > reps_completed (sets r ! i)))"
  by (simp add: isBeatPreviousSession_def reduce1_heaviest)

lemma progression_heaviest:
  assumes "heaviest_at (sets r) i"
  shows "\<exists>p. calculateProgression fmt r = Inr p \<and>
             lastWeight p = weight_used (sets r ! i) \<and>
             lastReps p = reps_completed (sets r ! i) \<and>
             (if reps_completed (sets r ! i) < 12
              then suggestedWeight p = weight_used (sets r ! i) \<and>
                   suggestedReps p = reps_completed (sets r ! i) + 1 \<and> strategy p = reps
              else suggestedWeight p = round64 (weight_used (sets r ! i) + 2.5) \<and>
                   suggestedReps p = max 8 (round64 (reps_completed (sets r ! i) - 2)) \<and>
                   strategy p = weight)"
  by (simp add: calculateProgression_def reduce1_heaviest[OF assms] Let_def)

text \<open>
  C2. In a non-empty session, \<open>findBestSet\<close> and the heaviest-set computations inside
  \<open>calculateProgression\<close> and \<open>isBeatPreviousSession\<close> all select the same entry: one of
  maximum \<open>weight_used\<close>, and among several of that weight the first in the order of the
  \<open>sets\<close> array. Where the array is ascending by set number, that entry has the least set
  number among the entries of maximum weight.
\<close>
theorem heaviest_selection_first_max:
  assumes "sets r \<noteq> []"
  shows "\<exists>i. heaviest_at (sets r) i \<and>
             findBestSet r = Inr (sets r ! i) \<and>
             (\<exists>p. calculateProgression fmt r = Inr p \<and>
                  lastWeight p = weight_used (sets r ! i) \<and>
                  lastReps p = reps_completed (sets r ! i)) \<and>
             isBeatPreviousSession cw cr r =
               Inr (cw > weight_used (sets r ! i) \<or>
                    (cw = weight_used (sets r ! i) \<and> cr > reps_completed (sets r ! i))) \<and>
             (sorted (map set_number (sets r)) \<longrightarrow>
                (\<forall>s \<in> set (sets r). weight_used s = weight_used (sets r ! i) \<longrightarrow>
                    set_number (sets r ! i) \<le> set_number s))"
proof -
  obtain i where h: "heaviest_at (sets r) i"
    using heaviest_at_exists[OF assms] by blast
  have tie: "set_number (sets r ! i) \<le> set_number s"
    if srt: "sorted (map set_number (sets r))" and mem: "s \<in> set (sets r)"
      and eq: "weight_used s = weight_used (sets r ! i)" for s
  proof -
    obtain j where j: "j < length (sets r)" "s = sets r ! j"
      using mem by (auto simp: in_set_conv_nth)
    have "\<not> j < i"
    proof
      assume "j < i"
      then have "weight_used (sets r ! j) < weight_used (sets r ! i)"
        using h by (simp add: heaviest_at_iff)
      then show False using eq j by simp
    qed
    then have "i \<le> j" by simp
    then have "map set_number (sets r) ! i \<le> map set_number (sets r) ! j"
      using srt j by (simp add: sorted_iff_nth_mono)
    moreover have "i < length (sets r)" using h by (simp add: heaviest_at_iff)
    ultimately show ?thesis using j by simp
  qed
  obtain p where "calculateProgression fmt r = Inr p"
      "lastWeight p = weight_used (sets r ! i)" "lastReps p = reps_completed (sets r ! i)"
    using progression_heaviest[OF h] by blast
  then show ?thesis
    using h findBestSet_heaviest[OF h] isBeat_heaviest[OF h] tie by blast
qed

theorem heaviest_selection_first_max_witness:
  "sets (mkRef [mkSet 1 100 10, mkSet 2 105 8, mkSet 3 105 9]) \<noteq> [] \<and>
   findBestSet (mkRef [mkSet 1 100 10, mkSet 2 105 8, mkSet 3 105 9]) = Inr (mkSet 2 105 8)"
proof -
  let ?r = "mkRef [mkSet 1 100 10, mkSet 2 105 8, mkSet 3 105 9]"
  have ne: "sets ?r \<noteq> []" by simp
  obtain i where h: "heaviest_at (sets ?r) i" and f: "findBestSet ?r = Inr (sets ?r ! i)"
    using heaviest_selection_first_max[OF ne] by blast
  have "heaviest_at (sets ?r) 1" by (simp add: heaviest_at_def)
  then have "i = 1" using h heaviest_at_unique by blast
  then show ?thesis using f by simp
qed

text \<open>
  C3. When the heaviest set of a session has weight \<open>w\<close> and fewer than 12 repetitions
  \<open>r\<close>, \<open>calculateProgression\<close> suggests the weight \<open>w\<close>, \<open>r + 1\<close> repetitions and the
  strategy \<open>reps\<close>. The witness is the heaviest set (100, 10), answered by (100, 11).
\<close>
theorem calculateProgression_reps_strategy:
  assumes "heaviest_at (sets r) i" and "reps_completed (sets r ! i) < 12"
  shows "\<exists>p. calculateProgression fmt r = Inr p \<and>
             suggestedWeight p = weight_used (sets r ! i) \<and>
             suggestedReps p = reps_completed (sets r ! i) + 1 \<and>
             strategy p = reps"
  using progression_heaviest[OF assms(1), of fmt] assms(2) by auto

theorem calculateProgression_reps_strategy_witness:
  "heaviest_at (sets (mkRef [mkSet 1 100 10])) 0 \<and>
   reps_completed (sets (mkRef [mkSet 1 100 10]) ! 0) < 12 \<and>
   (\<forall>fmt. \<exists>p. calculateProgression fmt (mkRef [mkSet 1 100 10]) = Inr p \<and>
      suggestedWeight p = 100 \<and> suggestedReps p = 11 \<and> strategy p = reps)"
proof -
  let ?r = "mkRef [mkSet 1 100 10]"
  have h: "heaviest_at (sets ?r) 0" by (simp add: heaviest_at_def)
  have l: "reps_completed (sets ?r ! 0) < 12" by simp
  show ?thesis
    using h l calculateProgression_reps_strategy[OF h l] by simp
qed

text \<open>
  C4, as stated, says that the suggested weight is \<open>w + 2.5\<close>. The code adds in binary64:
  for the heaviest set \<open>(2 ^ 55, 12)\<close> the sum rounds back to \<open>2 ^ 55\<close>, and the suggested
  weight is the last weight, not \<open>w + 2.5\<close>.
\<close>
theorem calculateProgression_weight_rounds:
  "map_sum Fun.id suggestedWeight
       (calculateProgression print_nothing (mkRef [mkSet 1 (2 ^ 55) 12])) = Inr (2 ^ 55) \<and>
   map_sum Fun.id lastWeight
       (calculateProgression print_nothing (mkRef [mkSet 1 (2 ^ 55) 12])) = Inr (2 ^ 55) \<and>
   weight_used (sets (mkRef [mkSet 1 (2 ^ 55) 12]) ! 0) + 2.5 \<noteq> 2 ^ 55 \<and>
   exact64 (2 ^ 55)"
proof -
  have a: "round64 (2 ^ 55 + 2.5) = 2 ^ 55"
    by (subst round64_normal[where k = 55]) (simp_all add: round_half_even_def)
  have b: "round64 (2 ^ 55) = 2 ^ 55"
    by (subst round64_normal[where k = 55]) (simp_all add: round_half_even_def)
  have c: "(2::real) ^ 55 \<le> max64" by (simp add: max64_def)
  have h: "heaviest_at (sets (mkRef [mkSet 1 (2 ^ 55) 12])) 0" by (simp add: heaviest_at_def)
  obtain p where p: "calculateProgression print_nothing (mkRef [mkSet 1 (2 ^ 55) 12]) = Inr p"
      "lastWeight p = 2 ^ 55" "suggestedWeight p = round64 (2 ^ 55 + 2.5)"
    using progression_heaviest[OF h, of print_nothing] by auto
  show ?thesis using p a b c by (simp add: exact64_def)
qed

text \<open>
  C4, amended. When the heaviest set of a session has weight \<open>w\<close> and at least 12
  repetitions \<open>r\<close>, \<open>calculateProgression\<close> returns the strategy \<open>weight\<close>, the suggested
  weight \<open>w + 2.5\<close> rounded to the nearest binary64 value, and the suggested repetitions
  \<open>max 8 (r - 2)\<close> with the difference rounded likewise. Where \<open>w + 2.5\<close> is a binary64 value
  the suggested weight is \<open>w + 2.5\<close> itself, and where \<open>r - 2\<close> is one the suggested
  repetitions are \<open>max 8 (r - 2)\<close>. The witness is the heaviest set (100, 12), answered by
  (102.5, 10).
\<close>
theorem calculateProgression_weight_strategy:
  assumes "heaviest_at (sets r) i" and "reps_completed (sets r ! i) \<ge> 12"
  shows "\<exists>p. calculateProgression fmt r = Inr p \<and>
             strategy p = weight \<and>
             suggestedWeight p = round64 (weight_used (sets r ! i) + 2.5) \<and>
             suggestedReps p = max 8 (round64 (reps_completed (sets r ! i) - 2)) \<and>
             (exact64 (weight_used (sets r ! i) + 2.5) \<longrightarrow>
                suggestedWeight p = weight_used (sets r ! i) + 2.5) \<and>
             (exact64 (reps_completed (sets r ! i) - 2) \<longrightarrow>
                suggestedReps p = max 8 (reps_completed (sets r ! i) - 2))"
  using progression_heaviest[OF assms(1), of fmt] assms(2) by (auto simp: exact64_def)

theorem calculateProgression_weight_strategy_witness:
  "heaviest_at (sets (mkRef [mkSet 1 100 12])) 0 \<and>
   reps_completed (sets (mkRef [mkSet 1 100 12]) ! 0) \<ge> 12 \<and>
   exact64 (weight_used (sets (mkRef [mkSet 1 100 12]) ! 0) + 2.5) \<and>
   exact64 (reps_completed (sets (mkRef [mkSet 1 100 12]) ! 0) - 2) \<and>
   (\<forall>fmt. \<exists>p. calculateProgression fmt (mkRef [mkSet 1 100 12]) = Inr p \<and>
      suggestedWeight p = 102.5 \<and> suggestedReps p = 10 \<and> strategy p = weight)"
proof -
  let ?r = "mkRef [mkSet 1 100 12]"
  have h: "heaviest_at (sets ?r) 0" by (simp add: heaviest_at_def)
  have l: "reps_completed (sets ?r ! 0) \<ge> 12" by simp
  have "round64 102.5 = 102.5"
    by (subst round64_normal[where k = 6]) (simp_all add: round_half_even_def)
  moreover have "(102.5::real) \<le> max64" by (simp add: max64_def)
  ultimately have e1: "exact64 (weight_used (sets ?r ! 0) + 2.5)"
    by (simp add: exact64_def)
  have e2: "exact64 (reps_completed (sets ?r ! 0) - 2)"
    using exact64_numeral[of "num.Bit0 (num.Bit1 (num.Bit0 num.One))"] by simp
  have "\<exists>p. calculateProgression fmt ?r = Inr p \<and>
      suggestedWeight p = 102.5 \<and> suggestedReps p = 10 \<and> strategy p = weight" for fmt
    using e1 e2 calculateProgression_weight_strategy[OF h l, of fmt] by auto
  then show ?thesis
    using h l e1 e2 by blast
qed

text \<open>
  C5. With the heaviest set \<open>(hw, hr)\<close> of a non-empty session, \<open>isBeatPreviousSession\<close> is
  true exactly when the current weight exceeds \<open>hw\<close>, or equals \<open>hw\<close> with more than \<open>hr\<close>
  repetitions. The witness is the heaviest set (105, 8) against (105, 8), (106, 5) and
  (105, 9).
\<close>
theorem isBeatPreviousSession_iff:
  assumes "heaviest_at (sets r) i"
  shows "isBeatPreviousSession cw cr r =
           Inr (cw > weight_used (sets r ! i) \<or>
                (cw = weight_used (sets r ! i) \<and> cr > reps_completed (sets r ! i)))"
  using isBeat_heaviest[OF assms] .

theorem isBeatPreviousSession_iff_witness:
  "heaviest_at (sets (mkRef [mkSet 1 100 10, mkSet 2 105 8, mkSet 3 100 10])) 1 \<and>
   isBeatPreviousSession 105 8 (mkRef [mkSet 1 100 10, mkSet 2 105 8, mkSet 3 100 10]) = Inr False \<and>
   isBeatPreviousSession 106 5 (mkRef [mkSet 1 100 10, mkSet 2 105 8, mkSet 3 100 10]) = Inr True \<and>
   isBeatPreviousSession 105 9 (mkRef [mkSet 1 100 10, mkSet 2 105 8, mkSet 3 100 10]) = Inr True"
proof -
  let ?r = "mkRef [mkSet 1 100 10, mkSet 2 105 8, mkSet 3 100 10]"
  have h: "heaviest_at (sets ?r) 1" by (simp add: heaviest_at_def)
  show ?thesis
    using h isBeatPreviousSession_iff[OF h, of 105 8] isBeatPreviousSession_iff[OF h, of 106 5]
      isBeatPreviousSession_iff[OF h, of 105 9]
    by simp
qed





text \<open>
  C8, as stated, says that the suggestion beats every non-empty session. For the session
  whose only set is \<open>(2 ^ 55, 12)\<close> the suggested weight \<open>2 ^ 55 + 2.5\<close> rounds back to
  \<open>2 ^ 55\<close> and the suggested repetitions are 10, so the suggestion does not beat it.
\<close>
theorem progression_fails_to_beat:
  "suggestion_beats print_nothing (mkRef [mkSet 1 (2 ^ 55) 12]) = Inr False \<and>
   map_sum Fun.id suggestedWeight
       (calculateProgression print_nothing (mkRef [mkSet 1 (2 ^ 55) 12])) = Inr (2 ^ 55) \<and>
   map_sum Fun.id suggestedReps
       (calculateProgression print_nothing (mkRef [mkSet 1 (2 ^ 55) 12])) = Inr 10 \<and>
   isBeatPreviousSession (2 ^ 55) 10 (mkRef [mkSet 1 (2 ^ 55) 12]) = Inr False"
proof -
  let ?r = "mkRef [mkSet 1 (2 ^ 55) 12]"
  have a: "round64 (2 ^ 55 + 2.5) = 2 ^ 55"
    by (subst round64_normal[where k = 55]) (simp_all add: round_half_even_def)
  have b: "round64 10 = 10" by (simp add: round64_numeral)
  have h: "heaviest_at (sets ?r) 0" by (simp add: heaviest_at_def)
  obtain p where p: "calculateProgression print_nothing ?r = Inr p"
      "suggestedWeight p = round64 (2 ^ 55 + 2.5)" "suggestedReps p = max 8 (round64 (12 - 2))"
    using progression_heaviest[OF h, of print_nothing] by auto
  have sw: "suggestedWeight p = 2 ^ 55" using p(2) a by simp
  have sr: "suggestedReps p = 10" using p(3) b by simp
  have nb: "isBeatPreviousSession (2 ^ 55) 10 ?r = Inr False"
    using isBeat_heaviest[OF h, of "2 ^ 55" 10] by simp
  show ?thesis using p(1) sw sr nb by (simp add: suggestion_beats_def)
qed

text \<open>
  C8, amended. The suggestion computed from a non-empty session beats that session
  whenever the heaviest set has fewer than 12 repetitions, or a weight \<open>w\<close> with
  \<open>\<bar>w + 2.5\<bar> < 2 ^ 55\<close> (every binary64 weight from \<open>- (2 ^ 55)\<close> to below \<open>2 ^ 55\<close>): with
  \<open>p = calculateProgression session\<close>, \<open>isBeatPreviousSession\<close> of the suggested weight and
  repetitions is true. In the \<open>reps\<close> branch the weight is the same and the repetitions
  are more; in the \<open>weight\<close> branch the weight is more.
\<close>
theorem progression_beats_previous:
  assumes "heaviest_at (sets r) i"
    and "reps_completed (sets r ! i) < 12 \<or> \<bar>weight_used (sets r ! i) + 2.5\<bar> < 2 ^ 55"
  shows "suggestion_beats fmt r = Inr True \<and>
         (\<exists>p. calculateProgression fmt r = Inr p \<and>
             isBeatPreviousSession (suggestedWeight p) (suggestedReps p) r = Inr True \<and>
             (strategy p = reps \<and> suggestedWeight p = lastWeight p \<and> suggestedReps p > lastReps p
              \<or> strategy p = weight \<and> suggestedWeight p > lastWeight p))"
proof -
  let ?w = "weight_used (sets r ! i)"
  let ?n = "reps_completed (sets r ! i)"
  obtain p where p: "calculateProgression fmt r = Inr p"
      "lastWeight p = ?w" "lastReps p = ?n"
      "if ?n < 12
       then suggestedWeight p = ?w \<and> suggestedReps p = ?n + 1 \<and> strategy p = reps
       else suggestedWeight p = round64 (?w + 2.5) \<and>
            suggestedReps p = max 8 (round64 (?n - 2)) \<and> strategy p = weight"
    using progression_heaviest[OF assms(1)] by blast
  have beat: "isBeatPreviousSession (suggestedWeight p) (suggestedReps p) r = Inr True \<and>
      (strategy p = reps \<and> suggestedWeight p = lastWeight p \<and> suggestedReps p > lastReps p
       \<or> strategy p = weight \<and> suggestedWeight p > lastWeight p)"
  proof (cases "?n < 12")
    case True
    then show ?thesis using p isBeat_heaviest[OF assms(1)] by auto
  next
    case False
    then have "\<bar>?w + 2.5\<bar> < 2 ^ Suc 54" using assms(2) by simp
    then have "\<bar>round64 (?w + 2.5) - (?w + 2.5)\<bar> \<le> 2 ^ 54 / 2 ^ 53"
      by (rule round64_error)
    then have "?w < round64 (?w + 2.5)" by simp
    then show ?thesis using False p isBeat_heaviest[OF assms(1)] by auto
  qed
  then show ?thesis using p(1) by (auto simp: suggestion_beats_def)
qed

theorem progression_beats_previous_witness:
  "heaviest_at (sets (mkRef [mkSet 1 100 10, mkSet 2 105 8, mkSet 3 100 10])) 1 \<and>
   reps_completed (sets (mkRef [mkSet 1 100 10, mkSet 2 105 8, mkSet 3 100 10]) ! 1) < 12 \<and>
   suggestion_beats print_nothing (mkRef [mkSet 1 100 10, mkSet 2 105 8, mkSet 3 100 10]) = Inr True \<and>
   heaviest_at (sets (mkRef [mkSet 1 100 12])) 0 \<and>
   \<bar>weight_used (sets (mkRef [mkSet 1 100 12]) ! 0) + 2.5\<bar> < 2 ^ 55 \<and>
   suggestion_beats print_nothing (mkRef [mkSet 1 100 12]) = Inr True"
proof -
  let ?a = "mkRef [mkSet 1 100 10, mkSet 2 105 8, mkSet 3 100 10]"
  let ?b = "mkRef [mkSet 1 100 12]"
  have ha: "heaviest_at (sets ?a) 1" by (simp add: heaviest_at_def)
  have la: "reps_completed (sets ?a ! 1) < 12 \<or> \<bar>weight_used (sets ?a ! 1) + 2.5\<bar> < 2 ^ 55"
    by simp
  have hb: "heaviest_at (sets ?b) 0" by (simp add: heaviest_at_def)
  have lb: "reps_completed (sets ?b ! 0) < 12 \<or> \<bar>weight_used (sets ?b ! 0) + 2.5\<bar> < 2 ^ 55"
    by simp
  show ?thesis
    using ha hb progression_beats_previous[OF ha la, of print_nothing]
      progression_beats_previous[OF hb lb, of print_nothing]
    by simp
qed

text \<open>
  C9. On a reference whose \<open>sets\<close> array is empty, \<open>calculateProgression\<close>, \<open>findBestSet\<close>,
  \<open>isBeatPreviousSession\<close> and \<open>calculateImprovement\<close> all throw the \<open>TypeError\<close> of a
  reduce over an empty array; on a non-empty one none of them throws. So the error branch
  is reached exactly by an empty session.
\<close>
theorem empty_sets_throw:
  "(sets r = [] \<longrightarrow>
      calculateProgression fmt r = Inl (TypeError ''Reduce of empty array with no initial value'') \<and>
      findBestSet r = Inl (TypeError ''Reduce of empty array with no initial value'') \<and>
      isBeatPreviousSession cw cr r = Inl (TypeError ''Reduce of empty array with no initial value'') \<and>
      calculateImprovement cw cr r = Inl (TypeError ''Reduce of empty array with no initial value'')) \<and>
   (sets r \<noteq> [] \<longrightarrow>
      (\<exists>p. calculateProgression fmt r = Inr p) \<and>
      (\<exists>s. findBestSet r = Inr s) \<and>
      (\<exists>b. isBeatPreviousSession cw cr r = Inr b) \<and>
      (\<exists>v. calculateImprovement cw cr r = Inr v))"
proof (intro conjI impI)
  assume e: "sets r = []"
  show "calculateProgression fmt r = Inl (TypeError ''Reduce of empty array with no initial value'')"
    using e by (simp add: calculateProgression_def)
  show f: "findBestSet r = Inl (TypeError ''Reduce of empty array with no initial value'')"
    using e by (simp add: findBestSet_def)
  show "isBeatPreviousSession cw cr r = Inl (TypeError ''Reduce of empty array with no initial value'')"
    using e by (simp add: isBeatPreviousSession_def)
  show "calculateImprovement cw cr r = Inl (TypeError ''Reduce of empty array with no initial value'')"
    using f by (simp add: calculateImprovement_def)
next
  assume ne: "sets r \<noteq> []"
  then obtain i where h: "heaviest_at (sets r) i"
    using heaviest_at_exists by blast
  show "\<exists>p. calculateProgression fmt r = Inr p"
    using progression_heaviest[OF h] by blast
  show "\<exists>s. findBestSet r = Inr s"
    using findBestSet_heaviest[OF h] by blast
  show "\<exists>b. isBeatPreviousSession cw cr r = Inr b"
    using isBeat_heaviest[OF h] by blast
  show "\<exists>v. calculateImprovement cw cr r = Inr v"
    using findBestSet_heaviest[OF h] by (simp add: calculateImprovement_def Let_def)
qed

theorem empty_sets_throw_witness:
  "sets (mkRef []) = [] \<and>
   findBestSet (mkRef []) = Inl (TypeError ''Reduce of empty array with no initial value'') \<and>
   (\<forall>fmt. calculateProgression fmt (mkRef []) =
      Inl (TypeError ''Reduce of empty array with no initial value'')) \<and>
   sets (mkRef [mkSet 1 100 10]) \<noteq> [] \<and>
   (\<exists>s. findBestSet (mkRef [mkSet 1 100 10]) = Inr s)"
  using empty_sets_throw[of "mkRef []"] empty_sets_throw[of "mkRef [mkSet 1 100 10]"]
  by simp

section \<open>Properties of the reducer\<close>

text \<open>
  C10. On \<open>LOG_SET_SUCCESS\<close> the reducer returns the state with the payload appended at the
  end of \<open>loggedSets\<close>, the entries before it unchanged and in order, and with every other
  field as it was.
\<close>
theorem log_set_success_appends:
  "\<exists>s'. workoutReducer s (LOG_SET_SUCCESS p) = Inr s' \<and>
        loggedSets s' = loggedSets s @ [p] \<and>
        userId s' = userId s \<and>
        currentDay s' = currentDay s \<and>
        dailyWorkout s' = dailyWorkout s \<and>
        currentExerciseIndex s' = currentExerciseIndex s \<and>
        currentExercise s' = currentExercise s \<and>
        referenceData s' = referenceData s \<and>
        isLoading s' = isLoading s \<and>
        error s' = error s \<and>
        s' = s\<lparr> loggedSets := loggedSets s @ [p] \<rparr>"
  by simp

theorem log_set_success_appends_witness:
  "\<exists>s'. workoutReducer (sample_state\<lparr> loggedSets := [sample_log 1] \<rparr>) (LOG_SET_SUCCESS (sample_log 2)) = Inr s' \<and>
        loggedSets s' = [sample_log 1, sample_log 2] \<and>
        userId s' = ''user_123''"
  using log_set_success_appends[of "sample_state\<lparr> loggedSets := [sample_log 1] \<rparr>" "sample_log 2"]
  by (simp add: sample_state_def)

end
